theory Spec2Isabelle
  imports Main "HOL-Library.Multiset"
begin

section \<open>Machine integers\<close>

text \<open>
  The source mixes \<open>size_t\<close> (unsigned, 64 bits on the LP64 targets the program is built
  for) and \<open>int\<close> (signed, 32 bits). Sizes and loop counters are modelled as \<open>nat\<close>:
  every \<open>size_t\<close> value the code computes is bounded by the length of a container held
  in memory plus one, so the unsigned arithmetic itself never wraps, except for
  \<open>answers.size() - 1\<close>, which is written out with its wrap-around. The conversions between
  the two types are where values change, and they are modelled explicitly.
\<close>

definition to_int32 :: "int \<Rightarrow> int" where
  \<comment> \<open>conversion of an integer value to \<open>int\<close>: reduction modulo \<open>2^32\<close> into the signed range\<close>
  "to_int32 x = (let r = x mod 2 ^ 32 in if r < 2 ^ 31 then r else r - 2 ^ 32)"

definition int_of_size_t :: "nat \<Rightarrow> int" where
  \<comment> \<open>a \<open>size_t\<close> passed or assigned where an \<open>int\<close> is expected\<close>
  "int_of_size_t n = to_int32 (int n)"

definition size_t_of_int :: "int \<Rightarrow> nat" where
  \<comment> \<open>an \<open>int\<close> used where a \<open>size_t\<close> is expected (vector subscripts): modulo \<open>2^64\<close>\<close>
  "size_t_of_int i = nat (i mod 2 ^ 64)"

definition size_t_minus :: "nat \<Rightarrow> nat \<Rightarrow> nat" where
  \<comment> \<open>unsigned subtraction \<open>a - b\<close> on \<open>size_t\<close>, for \<open>b \<le> 2^64\<close>\<close>
  "size_t_minus a b = (a + (2 ^ 64 - b)) mod 2 ^ 64"


section \<open>The edit-distance matcher (chatbot.cpp, ComputeLevenshteinDistance)\<close>

definition toupper :: "char \<Rightarrow> char" where
  \<comment> \<open>\<open>::toupper\<close> of the C library in the "C" locale, on the bytes of a \<open>std::string\<close>\<close>
  "toupper c =
     (let n = (of_char c :: nat) in if 97 \<le> n \<and> n \<le> 122 then char_of (n - 32) else c)"

text \<open>
  The inner \<open>for\<close> loop over \<open>s2\<close>: \<open>it2\<close> is the rest of \<open>s2\<close> still to visit, \<open>j\<close> its
  index, \<open>corner\<close> the local variable of that name and \<open>costs\<close> the rolling row.
\<close>

fun inner_loop :: "char \<Rightarrow> string \<Rightarrow> nat \<Rightarrow> nat \<Rightarrow> nat list \<Rightarrow> nat list" where
  "inner_loop c1 [] j corner costs = costs"
| "inner_loop c1 (c2 # it2) j corner costs =
     (let upper = costs ! (j + 1);
          costs' = (if c1 = c2 then costs[j + 1 := corner]
                    else (let t = (if upper < corner then upper else corner)
                          in costs[j + 1 := (if costs ! j < t then costs ! j else t) + 1]))
      in inner_loop c1 it2 (j + 1) upper costs')"

text \<open>The outer \<open>for\<close> loop over \<open>s1\<close>, with its counter \<open>i\<close>.\<close>

fun outer_loop :: "string \<Rightarrow> string \<Rightarrow> nat \<Rightarrow> nat list \<Rightarrow> nat list" where
  "outer_loop [] s2 i costs = costs"
| "outer_loop (c1 # it1) s2 i costs =
     outer_loop it1 s2 (i + 1) (inner_loop c1 s2 0 i (costs[0 := i + 1]))"

definition ComputeLevenshteinDistance :: "string \<Rightarrow> string \<Rightarrow> int" where
  "ComputeLevenshteinDistance s1_in s2_in =
     (let s1 = map toupper s1_in;
          s2 = map toupper s2_in;
          m = length s1;
          n = length s2
      in if m = 0 then int_of_size_t n
         else if n = 0 then int_of_size_t m
         else (let costs = [0 ..< n + 1];
                   costs = outer_loop s1 s2 0 costs
               in int_of_size_t (costs ! n)))"


section \<open>The dialogue graph (graphnode.cpp)\<close>

text \<open>
  Nodes live in an arena and a \<open>GraphNode *\<close> is an index into it; an index outside the
  arena stands for a null or dangling pointer. A node owns its outgoing edges
  (\<open>std::vector<std::unique_ptr<GraphEdge>>\<close>), so they are held by value in the node, and a
  \<open>GraphEdge *\<close> obtained from the node is modelled by the edge it points to. The graph is
  not modified while messages are processed.
\<close>

type_synonym node_ptr = nat

record GraphEdge =
  edgeKeywords :: "string list"
  childNode :: node_ptr

record GraphNode =
  answers :: "string list"
  childEdges :: "GraphEdge list"

type_synonym graph = "GraphNode list"

datatype error =
  OutOfRange    \<comment> \<open>\<open>std::out_of_range\<close>, thrown by \<open>std::vector::at\<close>\<close>
| Undefined     \<comment> \<open>undefined behaviour: an invalid pointer, an unchecked subscript out of
                     bounds, or a violated precondition of the standard library\<close>

definition node_at :: "graph \<Rightarrow> node_ptr \<Rightarrow> GraphNode option" where
  "node_at g p = (if p < length g then Some (g ! p) else None)"

definition GetNumberOfChildEdges :: "GraphNode \<Rightarrow> nat" where
  \<comment> \<open>Modelled from the spec: the accessor is defined in graphnode.h, which is not part of
      the sources at hand; it returns the number of outgoing edges as a \<open>size_t\<close>.\<close>
  "GetNumberOfChildEdges n = length (childEdges n)"

definition GetAnswers :: "GraphNode \<Rightarrow> string list" where
  \<comment> \<open>Modelled from the spec: the accessor of graphnode.h for the response list.\<close>
  "GetAnswers n = answers n"

definition GetKeywords :: "GraphEdge \<Rightarrow> string list" where
  \<comment> \<open>Modelled from the spec: the accessor of graphedge.h for the keyword list.\<close>
  "GetKeywords e = edgeKeywords e"

definition GetChildNode :: "GraphEdge \<Rightarrow> node_ptr" where
  \<comment> \<open>Modelled from the spec: the accessor of graphedge.h for the target node.\<close>
  "GetChildNode e = childNode e"

definition GetChildEdgeAtIndex :: "GraphNode \<Rightarrow> int \<Rightarrow> GraphEdge option" where
  \<comment> \<open>\<open>_childEdges[index].get()\<close>: the \<open>int\<close> is converted to the vector's \<open>size_type\<close> and
      the subscript is unchecked; \<open>None\<close> stands for the access out of bounds\<close>
  "GetChildEdgeAtIndex n index =
     (let k = size_t_of_int index
      in if k < length (childEdges n) then Some (childEdges n ! k) else None)"


section \<open>The traversal engine (chatbot.cpp)\<close>

text \<open>
  Of the \<open>ChatBot\<close> object the cursor and the root are kept; the image and the console
  log play no part in the traversal. \<open>chatLogic\<close> stands for the output side of the
  \<open>_chatLogic\<close> handle: the messages passed to \<open>SendMessageToUser\<close> so far, oldest first.

  Two parts of the standard library are parameters of the model:
  \<^item> \<open>std::sort\<close> with the comparator \<open>a.second < b.second\<close>, a function on the vector of
    pairs;
  \<^item> the value \<open>dis(generator)\<close> of a \<open>std::uniform_int_distribution<int> dis(0, b)\<close> on a
    \<open>std::mt19937\<close> freshly seeded with \<open>seed\<close>, a function of \<open>seed\<close> and \<open>b\<close>.

  The reading of the wall clock, \<open>std::time(0)\<close>, is an input \<open>now\<close> of each call.

  The source keeps a copy of the chatbot in every node it has visited and lets the
  \<open>_chatLogic\<close> handle point to the copy in the current node; messages are received through
  that handle, so the chatbot that receives a message is the one stored in its own current
  node. The model follows this one chatbot.
\<close>

record ChatBot =
  currentNode :: node_ptr
  rootNode :: node_ptr
  chatLogic :: "string list"

type_synonym EdgeDist = "GraphEdge \<times> int"
type_synonym std_sort = "EdgeDist list \<Rightarrow> EdgeDist list"
type_synonym uniform_int = "int \<Rightarrow> int \<Rightarrow> int"

definition SetCurrentNode :: "uniform_int \<Rightarrow> int \<Rightarrow> graph \<Rightarrow> ChatBot \<Rightarrow> node_ptr \<Rightarrow> error + ChatBot" where
  "SetCurrentNode dis_gen now g chatbot node =
     (case node_at g node of
        None \<Rightarrow> Inl Undefined
      | Some n \<Rightarrow>
          (let chatbot' = chatbot\<lparr>currentNode := node\<rparr>;
               answers = GetAnswers n;
               seed = to_int32 now;
               b = int_of_size_t (size_t_minus (length answers) 1)
           in if b < 0 then Inl Undefined   \<comment> \<open>\<open>dis(0, b)\<close> requires \<open>0 \<le> b\<close>\<close>
              else (let k = size_t_of_int (dis_gen seed b)   \<comment> \<open>\<open>answers.at(dis(generator))\<close>\<close>
                    in if k < length answers
                       then Inr (chatbot'\<lparr>chatLogic := chatLogic chatbot' @ [answers ! k]\<rparr>)
                       else Inl OutOfRange)))"

definition MoveChatbotHere :: "uniform_int \<Rightarrow> int \<Rightarrow> graph \<Rightarrow> node_ptr \<Rightarrow> ChatBot \<Rightarrow> error + ChatBot" where
  \<comment> \<open>called on the node \<open>this\<close>: the node stores the chatbot and makes itself its cursor\<close>
  "MoveChatbotHere dis_gen now g this chatbot = SetCurrentNode dis_gen now g chatbot this"

definition MoveChatbotToNewNode :: "uniform_int \<Rightarrow> int \<Rightarrow> graph \<Rightarrow> ChatBot \<Rightarrow> node_ptr \<Rightarrow> error + ChatBot" where
  \<comment> \<open>called on the current node, whose stored chatbot \<open>_chatBot\<close> is the one receiving
      the message: \<open>newNode->MoveChatbotHere(_chatBot)\<close>\<close>
  "MoveChatbotToNewNode dis_gen now g chatBot newNode =
     MoveChatbotHere dis_gen now g newNode chatBot"

text \<open>The range-based \<open>for\<close> over the keywords of one edge, appending to \<open>levDists\<close>.\<close>

fun keyword_loop :: "GraphEdge \<Rightarrow> string list \<Rightarrow> string \<Rightarrow> EdgeDist list \<Rightarrow> EdgeDist list" where
  "keyword_loop edge [] message levDists = levDists"
| "keyword_loop edge (keyword # rest) message levDists =
     keyword_loop edge rest message
       (levDists @ [(edge, ComputeLevenshteinDistance keyword message)])"

text \<open>
  The \<open>for\<close> loop over the child edges. Its counter \<open>i\<close> is a \<open>size_t\<close>; the accessor takes
  an \<open>int\<close>.
\<close>

function edge_loop :: "GraphNode \<Rightarrow> string \<Rightarrow> nat \<Rightarrow> EdgeDist list \<Rightarrow> error + EdgeDist list" where
  "edge_loop node message i levDists =
     (if i < GetNumberOfChildEdges node
      then (case GetChildEdgeAtIndex node (int_of_size_t i) of
              None \<Rightarrow> Inl Undefined
            | Some edge \<Rightarrow>
                edge_loop node message (i + 1)
                  (keyword_loop edge (GetKeywords edge) message levDists))
      else Inr levDists)"
  by pat_completeness auto
termination
  by (relation "measure (\<lambda>(node, message, i, levDists). GetNumberOfChildEdges node - i)") auto

declare edge_loop.simps [simp del]

definition ReceiveMessageFromUser ::
  "std_sort \<Rightarrow> uniform_int \<Rightarrow> int \<Rightarrow> graph \<Rightarrow> ChatBot \<Rightarrow> string \<Rightarrow> error + ChatBot" where
  "ReceiveMessageFromUser sort_by_dist dis_gen now g chatbot message =
     (case node_at g (currentNode chatbot) of
        None \<Rightarrow> Inl Undefined
      | Some cur \<Rightarrow>
          (case edge_loop cur message 0 [] of
             Inl e \<Rightarrow> Inl e
           | Inr levDists \<Rightarrow>
               (if length levDists > 0
                then (case sort_by_dist levDists of
                        [] \<Rightarrow> Inl OutOfRange
                      | best # _ \<Rightarrow>
                          MoveChatbotToNewNode dis_gen now g chatbot (GetChildNode (fst best)))
                else MoveChatbotToNewNode dis_gen now g chatbot (rootNode chatbot))))"




section \<open>What the standard library promises\<close>



definition uniform_int_spec :: "uniform_int \<Rightarrow> bool" where
  \<comment> \<open>\<open>std::uniform_int_distribution<int>(0, b)\<close>: for \<open>0 \<le> b\<close> the value lies in \<open>[0, b]\<close>\<close>
  "uniform_int_spec dis_gen \<longleftrightarrow> (\<forall>seed b. 0 \<le> b \<longrightarrow> 0 \<le> dis_gen seed b \<and> dis_gen seed b \<le> b)"

text \<open>Instances of the two library functions that meet these contracts.\<close>

definition stable_sort_by_distance :: std_sort where
  "stable_sort_by_distance xs = sort_key snd xs"


definition draw_by_seed :: uniform_int where
  "draw_by_seed seed b = seed mod (b + 1)"


section \<open>Notions of the specification\<close>

text \<open>
  Edit distance, in the specification's words: the minimum number of single-character
  insertions, deletions or substitutions that transform \<open>a\<close> into \<open>b\<close>. \<open>edit1 a b\<close> is one
  such operation somewhere in the string.
\<close>

inductive edit1 :: "'a list \<Rightarrow> 'a list \<Rightarrow> bool" where
  insertion: "edit1 xs (c # xs)"
| deletion: "edit1 (c # xs) xs"
| substitution: "edit1 (c # xs) (d # xs)"
| later: "edit1 xs ys \<Longrightarrow> edit1 (z # xs) (z # ys)"

definition is_edit_distance :: "'a list \<Rightarrow> 'a list \<Rightarrow> nat \<Rightarrow> bool" where
  "is_edit_distance a b d \<longleftrightarrow> (edit1 ^^ d) a b \<and> (\<forall>n. (edit1 ^^ n) a b \<longrightarrow> d \<le> n)"

text \<open>The textbook recurrence for the same number.\<close>

fun lev :: "'a list \<Rightarrow> 'a list \<Rightarrow> nat" where
  "lev [] ys = length ys"
| "lev (x # xs) [] = Suc (length xs)"
| "lev (x # xs) (y # ys) =
     min (min (lev xs (y # ys) + 1) (lev (x # xs) ys + 1))
         (lev xs ys + (if x = y then 0 else 1))"

definition lev_row :: "'a list \<Rightarrow> 'a list \<Rightarrow> nat list" where
  \<comment> \<open>the row of the cost matrix for the (reversed) prefix \<open>p\<close> of the first string\<close>
  "lev_row p ys = map (\<lambda>j. lev p (rev (take j ys))) [0 ..< length ys + 1]"

definition tolower :: "char \<Rightarrow> char" where
  "tolower c =
     (let n = (of_char c :: nat) in if 65 \<le> n \<and> n \<le> 90 then char_of (n + 32) else c)"

definition case_variant :: "string \<Rightarrow> string \<Rightarrow> bool" where
  \<comment> \<open>\<open>a'\<close> is \<open>a\<close> with the case of some of its letters changed\<close>
  "case_variant a a' \<longleftrightarrow> list_all2 (\<lambda>c d. d = c \<or> d = toupper c \<or> d = tolower c) a a'"

text \<open>
  Step 1 and 2 of the traversal: every (edge, keyword) pair of the node with its distance to
  the input, edges in insertion order and the keywords of each edge in theirs.
\<close>

definition enumerated_pairs :: "GraphNode \<Rightarrow> string \<Rightarrow> EdgeDist list" where
  "enumerated_pairs cur message =
     concat (map (\<lambda>e. map (\<lambda>k. (e, ComputeLevenshteinDistance k message)) (edgeKeywords e))
                 (childEdges cur))"



text \<open>
  A graph the engine can traverse: every node has a response to give, every edge leads to
  a node of the arena, and the sizes handed over as \<open>int\<close> fit that type.
\<close>

definition can_answer :: "GraphNode \<Rightarrow> bool" where
  "can_answer n \<longleftrightarrow> answers n \<noteq> [] \<and> length (answers n) \<le> 2 ^ 31"




text \<open>Concrete graphs used below.\<close>

definition greeting_graph :: graph where
  \<comment> \<open>a root with edge A, keyword "hi", to node 1 and edge B, keyword "hello", to node 2\<close>
  "greeting_graph =
     [\<lparr>answers = [''Welcome''],
       childEdges = [\<lparr>edgeKeywords = [''hi''], childNode = 1\<rparr>,
                     \<lparr>edgeKeywords = [''hello''], childNode = 2\<rparr>]\<rparr>,
      \<lparr>answers = [''Hi there''], childEdges = []\<rparr>,
      \<lparr>answers = [''Hello to you'', ''Good day''], childEdges = []\<rparr>]"


definition silent_graph :: graph where
  \<comment> \<open>a root with one edge to a node that has no response\<close>
  "silent_graph =
     [\<lparr>answers = [''Welcome''], childEdges = [\<lparr>edgeKeywords = [''go''], childNode = 1\<rparr>]\<rparr>,
      \<lparr>answers = [], childEdges = []\<rparr>]"

definition crowded_node :: GraphNode where
  \<comment> \<open>a node with \<open>2^31 + 1\<close> outgoing edges\<close>
  "crowded_node =
     \<lparr>answers = [''Welcome''],
      childEdges = replicate (2 ^ 31 + 1) \<lparr>edgeKeywords = [], childNode = 0\<rparr>\<rparr>"

definition start :: ChatBot where
  "start = \<lparr>currentNode = 0, rootNode = 0, chatLogic = []\<rparr>"


section \<open>The matcher computes the edit distance\<close>

subsection \<open>The recurrence\<close>

lemma lev_Nil2 [simp]: "lev xs [] = length xs"
  by (cases xs) simp_all

lemma lev_up1: "lev xs (y # ys) \<le> lev xs ys + 1"
  by (induction xs) (simp_all add: min.coboundedI1 min.coboundedI2)

lemma lev_lo2: "lev xs ys \<le> lev (x # xs) ys + 1"
proof (induction ys arbitrary: x xs)
  case Nil
  then show ?case by simp
next
  case (Cons y ys)
  have a: "lev xs (y # ys) \<le> lev xs ys + 1" by (rule lev_up1)
  have b: "lev xs ys \<le> lev (x # xs) ys + 1" by (rule Cons.IH)
  show ?case using a b by (simp add: min_def)
qed

lemma lev_sym: "lev xs ys = lev ys xs"
  by (induction xs ys rule: lev.induct) (simp_all add: min.commute min.left_commute eq_commute)

lemma lev_lo1: "lev xs ys \<le> lev xs (y # ys) + 1"
  using lev_lo2 [of ys xs y] by (simp add: lev_sym)

lemma lev_same_head: "lev (x # xs) (x # ys) = lev xs ys"
  using lev_lo1 [of xs ys x] lev_lo2 [of xs ys x] by (simp add: min_def)

lemma lev_diff_head:
  "x \<noteq> y \<Longrightarrow>
   lev (x # xs) (y # ys) = min (lev (x # xs) ys) (min (lev xs (y # ys)) (lev xs ys)) + 1"
  by (simp add: min_def)

lemma lev_refl [simp]: "lev xs xs = 0"
  by (induction xs) (simp_all add: lev_same_head del: lev.simps(3))

lemma lev_le_max: "lev xs ys \<le> max (length xs) (length ys)"
  by (induction xs ys rule: lev.induct) (auto simp: min_def max_def)

subsection \<open>The recurrence against chains of single edits\<close>

lemma lev_sub: "lev a (d # t) \<le> lev a (c # t) + 1"
proof (induction a)
  case Nil
  then show ?case by simp
next
  case (Cons z a)
  have "lev a (d # t) \<le> lev a t + 1" by (rule lev_up1)
  then show ?case using Cons.IH lev_up1 [of "z # a" d t] lev_up1 [of a d t]
    by (simp add: min_def split: if_splits)
qed

lemma lev_later:
  assumes "\<And>a. lev a c \<le> lev a b + 1"
  shows "lev a (z # c) \<le> lev a (z # b) + 1"
proof (induction a)
  case Nil
  then show ?case using assms [of "[]"] by simp
next
  case (Cons y a)
  then show ?case using assms [of a] assms [of "y # a"]
    by (simp add: min_def split: if_splits)
qed

lemma edit1_lev: "edit1 b c \<Longrightarrow> lev a c \<le> lev a b + 1"
proof (induction b c arbitrary: a rule: edit1.induct)
  case (insertion xs c)
  then show ?case by (rule lev_up1)
next
  case (deletion c xs)
  then show ?case by (rule lev_lo1)
next
  case (substitution c xs d)
  then show ?case by (rule lev_sub)
next
  case (later xs ys z)
  show ?case by (rule lev_later) (rule later.IH)
qed

lemma chain_lower: "(edit1 ^^ n) a b \<Longrightarrow> lev a b \<le> n"
proof (induction n arbitrary: b)
  case 0
  then show ?case by simp
next
  case (Suc n)
  then obtain m where "(edit1 ^^ n) a m" "edit1 m b" by auto
  then show ?case using Suc.IH [of m] edit1_lev [of m b a] by simp
qed

lemma chain_later: "(edit1 ^^ n) xs ys \<Longrightarrow> (edit1 ^^ n) (z # xs) (z # ys)"
proof (induction n arbitrary: ys)
  case 0
  then show ?case by simp
next
  case (Suc n)
  then obtain m where "(edit1 ^^ n) xs m" "edit1 m ys" by auto
  then show ?case using Suc.IH [of m] edit1.later [of m ys z] by auto
qed

lemma chain_insert_all: "(edit1 ^^ length ys) [] ys"
proof (induction ys)
  case Nil
  then show ?case by simp
next
  case (Cons y ys)
  then show ?case using edit1.insertion [of ys y] by auto
qed

lemma chain_delete_all: "(edit1 ^^ length xs) xs []"
proof (induction xs)
  case Nil
  then show ?case by simp
next
  case (Cons x xs)
  have "(edit1 ^^ Suc (length xs)) (x # xs) []"
    by (rule relpowp_Suc_I2 [OF edit1.deletion Cons.IH])
  then show ?case by simp
qed

lemma chain_upper: "(edit1 ^^ lev a b) a b"
proof (induction a b rule: lev.induct)
  case (1 ys)
  then show ?case by (simp add: chain_insert_all)
next
  case (2 x xs)
  then show ?case using chain_delete_all [of "x # xs"] by simp
next
  case (3 x xs y ys)
  let ?d = "lev xs (y # ys)" and ?i = "lev (x # xs) ys" and ?s = "lev xs ys"
  have "(edit1 ^^ Suc ?d) (x # xs) (y # ys)"
    by (rule relpowp_Suc_I2 [OF edit1.deletion "3.IH"(1)])
  then have del: "(edit1 ^^ (?d + 1)) (x # xs) (y # ys)" by simp
  have ins: "(edit1 ^^ (?i + 1)) (x # xs) (y # ys)"
    using "3.IH"(2) edit1.insertion [of ys y] by auto
  have keep: "(edit1 ^^ ?s) (x # xs) (x # ys)"
    using "3.IH"(3) by (rule chain_later)
  have sub: "(edit1 ^^ (?s + (if x = y then 0 else 1))) (x # xs) (y # ys)"
    using keep edit1.substitution [of x ys y] by auto
  show ?case using del ins sub by (simp add: min_def del: relpowp.simps)
qed

lemma lev_is_edit_distance: "is_edit_distance a b (lev a b)"
  unfolding is_edit_distance_def using chain_upper chain_lower by blast

lemma edit1_append: "edit1 xs ys \<Longrightarrow> edit1 (xs @ zs) (ys @ zs)"
  by (induction rule: edit1.induct) (auto intro: edit1.intros)

lemma edit1_prepend: "edit1 xs ys \<Longrightarrow> edit1 (zs @ xs) (zs @ ys)"
  by (induction zs) (auto intro: edit1.intros)

lemma edit1_rev: "edit1 xs ys \<Longrightarrow> edit1 (rev xs) (rev ys)"
proof (induction rule: edit1.induct)
  case (insertion xs c)
  show ?case using edit1_prepend [OF edit1.insertion [of "[]" c], of "rev xs"] by simp
next
  case (deletion c xs)
  show ?case using edit1_prepend [OF edit1.deletion [of c "[]"], of "rev xs"] by simp
next
  case (substitution c xs d)
  show ?case using edit1_prepend [OF edit1.substitution [of c "[]" d], of "rev xs"] by simp
next
  case (later xs ys z)
  then show ?case using edit1_append [of "rev xs" "rev ys" "[z]"] by simp
qed

lemma chain_rev: "(edit1 ^^ n) xs ys \<Longrightarrow> (edit1 ^^ n) (rev xs) (rev ys)"
proof (induction n arbitrary: ys)
  case 0
  then show ?case by simp
next
  case (Suc n)
  then obtain m where "(edit1 ^^ n) xs m" "edit1 m ys" by auto
  then show ?case using Suc.IH [of m] edit1_rev [of m ys] by auto
qed

lemma chain_rev_iff: "(edit1 ^^ n) (rev xs) (rev ys) \<longleftrightarrow> (edit1 ^^ n) xs ys"
  using chain_rev [of n xs ys] chain_rev [of n "rev xs" "rev ys"] by auto

lemma is_edit_distance_rev: "is_edit_distance (rev a) (rev b) d \<longleftrightarrow> is_edit_distance a b d"
  by (simp add: is_edit_distance_def chain_rev_iff)

lemma is_edit_distance_unique:
  "is_edit_distance a b d \<Longrightarrow> is_edit_distance a b d' \<Longrightarrow> d = d'"
  unfolding is_edit_distance_def by (meson le_antisym)

subsection \<open>The rolling row\<close>

lemma length_lev_row [simp]: "length (lev_row p ys) = length ys + 1"
  by (simp add: lev_row_def)

lemma nth_lev_row: "j \<le> length ys \<Longrightarrow> lev_row p ys ! j = lev p (rev (take j ys))"
  unfolding lev_row_def by (simp add: nth_map_upt del: upt_Suc)

lemma inner_loop_Cons:
  "inner_loop c1 (c2 # it2) j corner costs =
     inner_loop c1 it2 (Suc j) (costs ! Suc j)
       (costs[Suc j := (if c1 = c2 then corner
                        else Suc (min (costs ! j) (min (costs ! Suc j) corner)))])"
  by (simp add: Let_def min_def)

lemma length_inner_loop [simp]: "length (inner_loop c s2 j corner costs) = length costs"
  by (induction s2 arbitrary: j corner costs) (simp_all add: Let_def)

lemma length_outer_loop [simp]: "length (outer_loop s1 s2 i costs) = length costs"
  by (induction s1 arbitrary: i costs) simp_all

lemma inner_loop_rows:
  assumes lo: "length old = Suc (length ys)" and ln: "length new = Suc (length ys)"
    and step: "\<And>j. j < length ys \<Longrightarrow>
        new ! Suc j =
          (if c = ys ! j then old ! j else Suc (min (new ! j) (min (old ! Suc j) (old ! j))))"
  shows "j \<le> length ys \<Longrightarrow>
         inner_loop c (drop j ys) j (old ! j) (take (Suc j) new @ drop (Suc j) old) = new"
proof (induction "length ys - j" arbitrary: j)
  case 0
  then have "j = length ys" by simp
  then show ?case using lo ln by simp
next
  case (Suc k)
  then have jl: "j < length ys" by simp
  let ?costs = "take (Suc j) new @ drop (Suc j) old"
  have dr: "drop j ys = ys ! j # drop (Suc j) ys"
    using jl by (simp add: Cons_nth_drop_Suc)
  have up: "?costs ! Suc j = old ! Suc j"
    using jl lo ln by (simp add: nth_append)
  have left: "?costs ! j = new ! j"
    using jl lo ln by (simp add: nth_append)
  have upd: "?costs[Suc j := new ! Suc j] = take (Suc (Suc j)) new @ drop (Suc (Suc j)) old"
  proof -
    have "drop (Suc j) old = old ! Suc j # drop (Suc (Suc j)) old"
      using jl lo by (simp add: Cons_nth_drop_Suc)
    moreover have "take (Suc (Suc j)) new = take (Suc j) new @ [new ! Suc j]"
      using jl ln by (simp add: take_Suc_conv_app_nth)
    ultimately show ?thesis using jl ln by (simp add: list_update_append)
  qed
  have IH: "inner_loop c (drop (Suc j) ys) (Suc j) (old ! Suc j)
              (take (Suc (Suc j)) new @ drop (Suc (Suc j)) old) = new"
    using Suc.hyps(1) [of "Suc j"] Suc.hyps(2) jl by simp
  have "inner_loop c (drop j ys) j (old ! j) ?costs =
        inner_loop c (drop (Suc j) ys) (Suc j) (?costs ! Suc j)
          (?costs[Suc j := (if c = ys ! j then old ! j
                            else Suc (min (?costs ! j) (min (?costs ! Suc j) (old ! j))))])"
    unfolding dr by (rule inner_loop_Cons)
  also have "\<dots> = inner_loop c (drop (Suc j) ys) (Suc j) (old ! Suc j)
          (?costs[Suc j := new ! Suc j])"
    unfolding up left using step [OF jl] by simp
  also have "\<dots> = new" unfolding upd by (rule IH)
  finally show ?case .
qed

lemma lev_row_step:
  assumes "j < length ys"
  shows "lev_row (c # p) ys ! Suc j =
          (if c = ys ! j then lev_row p ys ! j
           else Suc (min (lev_row (c # p) ys ! j) (min (lev_row p ys ! Suc j) (lev_row p ys ! j))))"
proof -
  let ?q = "rev (take j ys)"
  have tk: "rev (take (Suc j) ys) = ys ! j # ?q"
    using assms by (simp add: take_Suc_conv_app_nth)
  have a: "lev_row (c # p) ys ! Suc j = lev (c # p) (ys ! j # ?q)"
    using assms tk by (simp add: nth_lev_row)
  have b: "lev_row p ys ! Suc j = lev p (ys ! j # ?q)"
    using assms tk by (simp add: nth_lev_row)
  have c: "lev_row p ys ! j = lev p ?q" using assms by (simp add: nth_lev_row)
  have d: "lev_row (c # p) ys ! j = lev (c # p) ?q" using assms by (simp add: nth_lev_row)
  show ?thesis
  proof (cases "c = ys ! j")
    case True
    then show ?thesis unfolding a b c d by (simp add: lev_same_head del: lev.simps)
  next
    case False
    then show ?thesis unfolding a b c d
      by (simp add: lev_diff_head del: lev.simps)
  qed
qed

lemma inner_loop_lev_row:
  "inner_loop c ys 0 (length p) ((lev_row p ys)[0 := length p + 1]) = lev_row (c # p) ys"
proof -
  obtain r rs where old: "lev_row p ys = r # rs"
    by (cases "lev_row p ys") (simp_all add: lev_row_def del: upt_Suc)
  obtain t ts where new: "lev_row (c # p) ys = t # ts"
    by (cases "lev_row (c # p) ys") (simp_all add: lev_row_def del: upt_Suc)
  have t: "t = length p + 1" using nth_lev_row [of 0 ys "c # p"] new by simp
  have r: "r = length p" using nth_lev_row [of 0 ys p] old by simp
  have "inner_loop c (drop 0 ys) 0 (lev_row p ys ! 0)
          (take (Suc 0) (lev_row (c # p) ys) @ drop (Suc 0) (lev_row p ys)) = lev_row (c # p) ys"
    by (rule inner_loop_rows) (simp_all add: lev_row_step)
  then show ?thesis unfolding old new using t r by simp
qed

lemma outer_loop_lev_row:
  "outer_loop s1 ys (length p) (lev_row p ys) = lev_row (rev s1 @ p) ys"
proof (induction s1 arbitrary: p)
  case Nil
  then show ?case by simp
next
  case (Cons c s1)
  have "outer_loop (c # s1) ys (length p) (lev_row p ys) =
        outer_loop s1 ys (length (c # p)) (lev_row (c # p) ys)"
    using inner_loop_lev_row [of c ys p] by simp
  then show ?case using Cons.IH [of "c # p"] by simp
qed

lemma initial_row: "[0 ..< length ys + 1] = lev_row [] ys"
  unfolding lev_row_def by (rule nth_equalityI) (simp_all add: nth_map_upt del: upt_Suc)

lemma ComputeLevenshteinDistance_lev:
  "ComputeLevenshteinDistance a b =
     int_of_size_t (lev (rev (map toupper a)) (rev (map toupper b)))"
proof -
  let ?A = "map toupper a" and ?B = "map toupper b"
  have "outer_loop ?A ?B 0 [0 ..< length ?B + 1] = lev_row (rev ?A) ?B"
    using outer_loop_lev_row [of ?A ?B "[]"] initial_row [of ?B] by simp
  then have "outer_loop ?A ?B 0 [0 ..< length ?B + 1] ! length ?B = lev (rev ?A) (rev ?B)"
    by (simp add: nth_lev_row)
  then show ?thesis
    unfolding ComputeLevenshteinDistance_def Let_def by (auto simp del: upt_Suc)
qed

subsection \<open>Conversions and characters\<close>

lemma int_of_size_t_small: "n < 2 ^ 31 \<Longrightarrow> int_of_size_t n = int n"
  by (simp add: int_of_size_t_def to_int32_def Let_def)

lemma int_of_size_t_le: "int_of_size_t n \<le> int n"
proof -
  have "int n mod 2 ^ 32 \<le> int n" by (rule zmod_le_nonneg_dividend) simp
  moreover have "int n mod 2 ^ 32 - 2 ^ 32 \<le> int n mod 2 ^ 32" by simp
  ultimately show ?thesis
    unfolding int_of_size_t_def to_int32_def Let_def by (simp del: zmod_int)
qed

lemma toupper_tolower: "toupper (tolower c) = toupper c"
proof (cases "65 \<le> (of_char c :: nat) \<and> (of_char c :: nat) \<le> 90")
  case True
  then have m: "((of_char c :: nat) + 32) mod 256 = of_char c + 32" by simp
  have "toupper (char_of ((of_char c :: nat) + 32)) = char_of (of_char c :: nat)"
    using True unfolding toupper_def Let_def of_char_of m by simp
  moreover have "toupper c = c" using True by (simp add: toupper_def Let_def)
  ultimately show ?thesis using True by (simp add: tolower_def Let_def)
next
  case False
  then show ?thesis by (auto simp: tolower_def Let_def)
qed

lemma toupper_idem: "toupper (toupper c) = toupper c"
proof (cases "97 \<le> (of_char c :: nat) \<and> (of_char c :: nat) \<le> 122")
  case True
  then have "(of_char c :: nat) - 32 < 256" by arith
  then have m: "((of_char c :: nat) - 32) mod 256 = of_char c - 32" by (rule mod_less)
  have nr: "\<not> (97 \<le> (of_char c :: nat) - 32 \<and> (of_char c :: nat) - 32 \<le> 122)"
    using True by arith
  have "toupper (char_of ((of_char c :: nat) - 32)) = char_of ((of_char c :: nat) - 32)"
    unfolding toupper_def Let_def of_char_of m using nr by (simp only: if_False)
  then show ?thesis using True by (simp add: toupper_def Let_def)
next
  case False
  then show ?thesis by (auto simp: toupper_def Let_def)
qed

lemma case_variant_toupper: "case_variant a a' \<Longrightarrow> map toupper a' = map toupper a"
  unfolding case_variant_def
  by (induction a a' rule: list_all2_induct) (auto simp: toupper_idem toupper_tolower)

section \<open>The traversal\<close>

subsection \<open>Enumeration of the candidate pairs\<close>

lemma keyword_loop_append:
  "keyword_loop edge ks message levDists =
     levDists @ map (\<lambda>k. (edge, ComputeLevenshteinDistance k message)) ks"
  by (induction ks arbitrary: levDists) simp_all

lemma size_t_of_int_int_of_size_t: "i < 2 ^ 31 \<Longrightarrow> size_t_of_int (int_of_size_t i) = i"
  by (simp add: int_of_size_t_small size_t_of_int_def)

lemma GetChildEdgeAtIndex_small:
  "i < length (childEdges n) \<Longrightarrow> i < 2 ^ 31 \<Longrightarrow>
   GetChildEdgeAtIndex n (int_of_size_t i) = Some (childEdges n ! i)"
  by (simp add: GetChildEdgeAtIndex_def size_t_of_int_int_of_size_t)

lemma edge_loop_enumerates:
  assumes "length (childEdges n) \<le> 2 ^ 31"
  shows "i \<le> length (childEdges n) \<Longrightarrow>
         edge_loop n message i levDists =
           Inr (levDists @
                concat (map (\<lambda>e. map (\<lambda>k. (e, ComputeLevenshteinDistance k message)) (edgeKeywords e))
                            (drop i (childEdges n))))"
proof (induction "length (childEdges n) - i" arbitrary: i levDists)
  case 0
  then have "i = length (childEdges n)" by simp
  then show ?case by (subst edge_loop.simps) (simp add: GetNumberOfChildEdges_def)
next
  case (Suc k)
  then have il: "i < length (childEdges n)" by simp
  then have i31: "i < 2 ^ 31" using assms by simp
  have dr: "drop i (childEdges n) = childEdges n ! i # drop (Suc i) (childEdges n)"
    using il by (simp add: Cons_nth_drop_Suc)
  have IH: "edge_loop n message (i + 1)
              (keyword_loop (childEdges n ! i) (GetKeywords (childEdges n ! i)) message levDists) =
            Inr (keyword_loop (childEdges n ! i) (GetKeywords (childEdges n ! i)) message levDists @
                concat (map (\<lambda>e. map (\<lambda>k. (e, ComputeLevenshteinDistance k message)) (edgeKeywords e))
                            (drop (i + 1) (childEdges n))))"
    using Suc.hyps(1) [of "i + 1"] Suc.hyps(2) il by simp
  show ?case
    apply (subst edge_loop.simps)
    using il i31 IH
    by (simp add: GetNumberOfChildEdges_def GetChildEdgeAtIndex_small dr keyword_loop_append
        GetKeywords_def)
qed

lemma edge_loop_enumerated_pairs:
  "length (childEdges n) \<le> 2 ^ 31 \<Longrightarrow> edge_loop n message 0 [] = Inr (enumerated_pairs n message)"
  using edge_loop_enumerates [of n 0 message "[]"] by (simp add: enumerated_pairs_def)

subsection \<open>Sorting and drawing\<close>








lemma draw_by_seed_spec: "uniform_int_spec draw_by_seed"
proof -
  have "0 \<le> seed mod (b + 1) \<and> seed mod (b + 1) \<le> b" if "0 \<le> b" for seed b :: int
    using that pos_mod_bound [of "b + 1" seed] pos_mod_sign [of "b + 1" seed] by simp
  then show ?thesis by (simp add: uniform_int_spec_def draw_by_seed_def)
qed

subsection \<open>Moving the cursor\<close>

lemma size_t_minus_1:
  assumes "0 < n" "n \<le> 2 ^ 31"
  shows "int_of_size_t (size_t_minus n 1) = int n - 1"
proof -
  have "n + (2 ^ 64 - 1) = (n - 1) + 2 ^ 64" using assms(1) by simp
  then have "size_t_minus n 1 = (n - 1) mod 2 ^ 64"
    unfolding size_t_minus_def by (metis mod_add_self2)
  moreover have "n - 1 < 2 ^ 64" using assms(2) by simp
  ultimately have "size_t_minus n 1 = n - 1" by simp
  moreover have "n - 1 < 2 ^ 31" using assms by simp
  ultimately show ?thesis using assms(1) by (simp add: int_of_size_t_small of_nat_diff)
qed

lemma SetCurrentNode_ok:
  assumes "uniform_int_spec dis_gen" "node < length g" "answers (g ! node) \<noteq> []"
    "length (answers (g ! node)) \<le> 2 ^ 31"
  shows "\<exists>k < length (answers (g ! node)).
           SetCurrentNode dis_gen now g chatbot node =
             Inr (chatbot\<lparr>currentNode := node,
                          chatLogic := chatLogic chatbot @ [answers (g ! node) ! k]\<rparr>)"
proof -
  let ?as = "answers (g ! node)"
  let ?b = "int (length ?as) - 1"
  let ?k = "size_t_of_int (dis_gen (to_int32 now) ?b)"
  have b: "int_of_size_t (size_t_minus (length ?as) 1) = ?b"
    using assms(3,4) by (intro size_t_minus_1) simp_all
  have b0: "0 \<le> ?b" using assms(3) by (cases ?as) simp_all
  have d: "0 \<le> dis_gen (to_int32 now) ?b" "dis_gen (to_int32 now) ?b \<le> ?b"
    using assms(1) b0 unfolding uniform_int_spec_def by blast+
  have "dis_gen (to_int32 now) ?b < 2 ^ 64" using d(2) assms(4) by simp
  then have "?k = nat (dis_gen (to_int32 now) ?b)"
    using d(1) by (simp add: size_t_of_int_def)
  then have k: "?k < length ?as" using d by arith
  have "SetCurrentNode dis_gen now g chatbot node =
          Inr (chatbot\<lparr>currentNode := node, chatLogic := chatLogic chatbot @ [?as ! ?k]\<rparr>)"
    using assms(2) b0 k b by (simp add: SetCurrentNode_def node_at_def GetAnswers_def Let_def)
  then show ?thesis using k by blast
qed


section \<open>Properties of the matcher\<close>

lemma lev_upper_below_int_max:
  assumes "length a < 2 ^ 31" "length b < 2 ^ 31"
  shows "ComputeLevenshteinDistance a b = int (lev (rev (map toupper a)) (rev (map toupper b)))"
proof -
  let ?d = "lev (rev (map toupper a)) (rev (map toupper b))"
  have "?d \<le> max (length a) (length b)"
    using lev_le_max [of "rev (map toupper a)" "rev (map toupper b)"] by simp
  then have "?d < 2 ^ 31" using assms by (simp add: max_def split: if_splits)
  then show ?thesis by (simp add: ComputeLevenshteinDistance_lev int_of_size_t_small)
qed

text \<open>
  C6, as amended. For all strings \<open>a\<close> and \<open>b\<close> of fewer than \<open>2^31\<close> characters, the
  rolling-row implementation returns exactly the Levenshtein distance of the upper-cased
  strings: that many single-character insertions, deletions or substitutions transform one
  into the other, and no fewer do. The row keeps its size \<open>length b + 1\<close>; the distance
  from or to the empty string is the length of the other string; and
  \<open>distance("kitten", "sitting") = 3\<close>.
\<close>

theorem levenshtein_distance_below_int_max:
  assumes "length a < 2 ^ 31" and "length b < 2 ^ 31"
  shows "(\<exists>d. ComputeLevenshteinDistance a b = int d \<and>
              is_edit_distance (map toupper a) (map toupper b) d) \<and>
         length (outer_loop (map toupper a) (map toupper b) 0 [0 ..< length b + 1]) = length b + 1 \<and>
         ComputeLevenshteinDistance [] b = int (length b) \<and>
         ComputeLevenshteinDistance a [] = int (length a) \<and>
         ComputeLevenshteinDistance ''kitten'' ''sitting'' = 3"
proof -
  let ?d = "lev (rev (map toupper a)) (rev (map toupper b))"
  have "is_edit_distance (rev (map toupper a)) (rev (map toupper b)) ?d"
    by (rule lev_is_edit_distance)
  then have "is_edit_distance (map toupper a) (map toupper b) ?d"
    by (simp only: is_edit_distance_rev)
  then have main: "\<exists>d. ComputeLevenshteinDistance a b = int d \<and>
      is_edit_distance (map toupper a) (map toupper b) d"
    using lev_upper_below_int_max [OF assms] by blast
  have row: "length (outer_loop (map toupper a) (map toupper b) 0 [0 ..< length b + 1]) = length b + 1"
    by (simp del: upt_Suc)
  have e1: "ComputeLevenshteinDistance [] b = int (length b)"
    using assms(2) by (simp add: ComputeLevenshteinDistance_def int_of_size_t_small)
  have e2: "ComputeLevenshteinDistance a [] = int (length a)"
    using assms(1) by (simp add: ComputeLevenshteinDistance_def Let_def int_of_size_t_small)
  have e3: "ComputeLevenshteinDistance ''kitten'' ''sitting'' = 3"
    by code_simp
  show ?thesis using main row e1 e2 e3 by blast
qed

text \<open>The theorem at "kitten" and "sitting".\<close>

theorem levenshtein_distance_below_int_max_witness:
  "length ''kitten'' < 2 ^ 31 \<and> length ''sitting'' < 2 ^ 31 \<and>
   ComputeLevenshteinDistance ''kitten'' ''sitting'' = 3 \<and>
   is_edit_distance ''KITTEN'' ''SITTING'' 3"
proof -
  have a: "length ''kitten'' < 2 ^ 31" and b: "length ''sitting'' < 2 ^ 31" by simp_all
  have u: "map toupper ''kitten'' = ''KITTEN''" "map toupper ''sitting'' = ''SITTING''"
    by code_simp+
  obtain d where d: "ComputeLevenshteinDistance ''kitten'' ''sitting'' = int d"
      "is_edit_distance (map toupper ''kitten'') (map toupper ''sitting'') d"
    and three: "ComputeLevenshteinDistance ''kitten'' ''sitting'' = 3"
    using levenshtein_distance_below_int_max [OF a b] by blast
  have "d = 3" using d(1) three by simp
  then show ?thesis using a b d(2) three unfolding u by simp
qed

text \<open>
  C6 as stated, for all strings, fails: the result is an \<open>int\<close>, and for the empty string
  against a string of \<open>2^31\<close> characters the function returns \<open>n\<close> converted to \<open>int\<close>, a
  negative number, not the length.
\<close>

theorem levenshtein_distance_counterexample:
  "ComputeLevenshteinDistance [] (replicate (2 ^ 31) (CHR ''a'')) = - 2147483648 \<and>
   ComputeLevenshteinDistance [] (replicate (2 ^ 31) (CHR ''a'')) \<noteq>
     int (length (replicate (2 ^ 31) (CHR ''a'')))"
  by (simp add: ComputeLevenshteinDistance_def int_of_size_t_def to_int32_def)

lemma map_toupper_idem: "map toupper (map toupper a) = map toupper a"
  by (induction a) (simp_all add: toupper_idem)

text \<open>
  C7. The matcher is case-insensitive: both inputs are normalised to upper case before the
  comparison, so the distance is unchanged when the case of letters of either argument
  changes; in particular \<open>distance("Hello", "HELLO") = 0\<close>.
\<close>

theorem matcher_case_insensitive:
  assumes "case_variant a a'" and "case_variant b b'"
  shows "ComputeLevenshteinDistance a' b' = ComputeLevenshteinDistance a b \<and>
         ComputeLevenshteinDistance a b =
           ComputeLevenshteinDistance (map toupper a) (map toupper b) \<and>
         ComputeLevenshteinDistance ''Hello'' ''HELLO'' = 0"
proof -
  have "map toupper a' = map toupper a" "map toupper b' = map toupper b"
    using assms by (simp_all add: case_variant_toupper)
  then have "ComputeLevenshteinDistance a' b' = ComputeLevenshteinDistance a b"
    by (simp add: ComputeLevenshteinDistance_lev)
  moreover have "ComputeLevenshteinDistance a b =
      ComputeLevenshteinDistance (map toupper a) (map toupper b)"
    unfolding ComputeLevenshteinDistance_lev map_toupper_idem ..
  moreover have "ComputeLevenshteinDistance ''Hello'' ''HELLO'' = 0"
    by code_simp
  ultimately show ?thesis by blast
qed

text \<open>The theorem at two pairs of strings that differ in case only.\<close>

theorem matcher_case_insensitive_witness:
  "case_variant ''Hello'' ''hELLo'' \<and> case_variant ''World!'' ''WORLD!'' \<and>
   ComputeLevenshteinDistance ''hELLo'' ''WORLD!'' = ComputeLevenshteinDistance ''Hello'' ''World!''"
proof -
  have a: "case_variant ''Hello'' ''hELLo''"
    by code_simp
  have b: "case_variant ''World!'' ''WORLD!''"
    by code_simp
  show ?thesis using a b matcher_case_insensitive [OF a b] by blast
qed

text \<open>C8. The matcher is symmetric: \<open>distance(a, b) = distance(b, a)\<close> for all strings.\<close>

theorem matcher_symmetric:
  "ComputeLevenshteinDistance a b = ComputeLevenshteinDistance b a"
  unfolding ComputeLevenshteinDistance_lev
  by (simp add: lev_sym [of "rev (map toupper a)" "rev (map toupper b)"])

text \<open>
  C9. For all strings the computed distance never exceeds the length of the longer string.
\<close>

theorem matcher_bounded_by_longer:
  "ComputeLevenshteinDistance a b \<le> int (max (length a) (length b))"
proof -
  let ?d = "lev (rev (map toupper a)) (rev (map toupper b))"
  have "?d \<le> max (length a) (length b)"
    using lev_le_max [of "rev (map toupper a)" "rev (map toupper b)"] by simp
  then have "int ?d \<le> int (max (length a) (length b))" by (simp only: of_nat_le_iff)
  moreover have "int_of_size_t ?d \<le> int ?d" by (rule int_of_size_t_le)
  ultimately show ?thesis unfolding ComputeLevenshteinDistance_lev by linarith
qed


section \<open>Properties of the traversal\<close>




lemma ReceiveMessageFromUser_unfold:
  assumes "currentNode chatbot < length g"
    and "length (childEdges (g ! currentNode chatbot)) \<le> 2 ^ 31"
  shows "ReceiveMessageFromUser srt dis_gen now g chatbot message =
           (if enumerated_pairs (g ! currentNode chatbot) message \<noteq> []
            then (case srt (enumerated_pairs (g ! currentNode chatbot) message) of
                    [] \<Rightarrow> Inl OutOfRange
                  | best # _ \<Rightarrow> SetCurrentNode dis_gen now g chatbot (childNode (fst best)))
            else SetCurrentNode dis_gen now g chatbot (rootNode chatbot))"
  using assms
  by (simp add: ReceiveMessageFromUser_def node_at_def edge_loop_enumerated_pairs
      MoveChatbotToNewNode_def MoveChatbotHere_def GetChildNode_def split: list.splits)

lemma SetCurrentNode_can_answer:
  assumes "uniform_int_spec dis_gen" "node < length g" "can_answer (g ! node)"
  shows "\<exists>answer \<in> set (answers (g ! node)).
           SetCurrentNode dis_gen now g chatbot node =
             Inr (chatbot\<lparr>currentNode := node, chatLogic := chatLogic chatbot @ [answer]\<rparr>)"
proof -
  obtain k where "k < length (answers (g ! node))"
    "SetCurrentNode dis_gen now g chatbot node =
       Inr (chatbot\<lparr>currentNode := node,
                    chatLogic := chatLogic chatbot @ [answers (g ! node) ! k]\<rparr>)"
    using SetCurrentNode_ok [of dis_gen node g now chatbot] assms
    unfolding can_answer_def by blast
  then show ?thesis using nth_mem by blast
qed

text \<open>
  C5. For every input string, if the current node has zero outgoing edges (so that no
  (edge, keyword) pair is enumerated), \<open>ReceiveMessageFromUser\<close> sets the cursor to the root
  node, whatever the input and whatever the sort; the root then gives one of its responses.
  The root is a node of the graph that has a response to give.
\<close>

theorem leaf_returns_to_root:
  assumes "uniform_int_spec dis_gen"
    and "currentNode chatbot < length g" and "rootNode chatbot < length g"
    and "can_answer (g ! rootNode chatbot)"
    and "childEdges (g ! currentNode chatbot) = []"
  shows "\<exists>answer \<in> set (answers (g ! rootNode chatbot)).
           ReceiveMessageFromUser srt dis_gen now g chatbot message =
             Inr (chatbot\<lparr>currentNode := rootNode chatbot,
                          chatLogic := chatLogic chatbot @ [answer]\<rparr>)"
proof -
  have "enumerated_pairs (g ! currentNode chatbot) message = []"
    using assms(5) by (simp add: enumerated_pairs_def)
  then have "ReceiveMessageFromUser srt dis_gen now g chatbot message =
      SetCurrentNode dis_gen now g chatbot (rootNode chatbot)"
    using assms(2,5) by (simp add: ReceiveMessageFromUser_unfold)
  then show ?thesis
    using SetCurrentNode_can_answer [OF assms(1,3,4), of now chatbot] by simp
qed



lemma greeting_pairs:
  "enumerated_pairs (greeting_graph ! 0) ''helo'' =
     [(\<lparr>edgeKeywords = [''hi''], childNode = 1\<rparr>, 3),
      (\<lparr>edgeKeywords = [''hello''], childNode = 2\<rparr>, 1)]"
  by code_simp










text \<open>The theorem at the leaf node 1 of the greeting graph.\<close>

theorem leaf_returns_to_root_witness:
  "uniform_int_spec draw_by_seed \<and>
   currentNode (start\<lparr>currentNode := 1\<rparr>) < length greeting_graph \<and>
   rootNode (start\<lparr>currentNode := 1\<rparr>) < length greeting_graph \<and>
   can_answer (greeting_graph ! rootNode (start\<lparr>currentNode := 1\<rparr>)) \<and>
   childEdges (greeting_graph ! currentNode (start\<lparr>currentNode := 1\<rparr>)) = [] \<and>
   ReceiveMessageFromUser stable_sort_by_distance draw_by_seed 7 greeting_graph
     (start\<lparr>currentNode := 1\<rparr>) ''anything'' =
     Inr \<lparr>currentNode = 0, rootNode = 0, chatLogic = [''Welcome'']\<rparr>"
proof -
  let ?c = "start\<lparr>currentNode := 1\<rparr>"
  have h: "currentNode ?c < length greeting_graph" "rootNode ?c < length greeting_graph"
    "can_answer (greeting_graph ! rootNode ?c)"
    "childEdges (greeting_graph ! currentNode ?c) = []"
    by (simp_all add: start_def greeting_graph_def can_answer_def)
  have a: "answers (greeting_graph ! rootNode ?c) = [''Welcome'']"
    by (simp add: start_def greeting_graph_def)
  show ?thesis
    using leaf_returns_to_root [OF draw_by_seed_spec h, of stable_sort_by_distance 7 "''anything''"]
      draw_by_seed_spec h
    unfolding a by (simp add: start_def)
qed








text \<open>
  C3. A destination node with an empty response list: \<open>answers.size() - 1\<close> wraps around and
  becomes the upper bound \<open>-1\<close> of the distribution, below its lower bound \<open>0\<close>. The call
  does not raise an error of its own for the empty list; its behaviour is undefined.
\<close>

theorem empty_answers_undefined:
  "SetCurrentNode dis_gen now silent_graph start 1 = Inl Undefined \<and>
   ReceiveMessageFromUser stable_sort_by_distance dis_gen now silent_graph start ''go'' =
     Inl Undefined"
proof -
  have s: "SetCurrentNode dis_gen now silent_graph start 1 = Inl Undefined"
    by (simp add: SetCurrentNode_def node_at_def GetAnswers_def size_t_minus_def
        int_of_size_t_def to_int32_def Let_def silent_graph_def)
  have c: "currentNode start < length silent_graph" by (simp add: start_def silent_graph_def)
  have l: "length (childEdges (silent_graph ! currentNode start)) \<le> 2 ^ 31"
    by (simp add: start_def silent_graph_def)
  have "enumerated_pairs (silent_graph ! 0) ''go'' = [(\<lparr>edgeKeywords = [''go''], childNode = 1\<rparr>, 0)]"
    by code_simp
  then have p: "enumerated_pairs (silent_graph ! currentNode start) ''go'' =
      [(\<lparr>edgeKeywords = [''go''], childNode = 1\<rparr>, 0)]"
    by (simp add: start_def)
  have r: "stable_sort_by_distance [(\<lparr>edgeKeywords = [''go''], childNode = 1\<rparr>, 0)] =
      [(\<lparr>edgeKeywords = [''go''], childNode = 1\<rparr>, 0)]"
    by (simp add: stable_sort_by_distance_def)
  have "ReceiveMessageFromUser stable_sort_by_distance dis_gen now silent_graph start ''go'' =
      Inl Undefined"
    unfolding ReceiveMessageFromUser_unfold [OF c l] p r using s by simp
  then show ?thesis using s by blast
qed

text \<open>
  C10, as amended. For a node with at most \<open>2^31\<close> child edges, every index that the
  enumeration passes to \<open>GetChildEdgeAtIndex\<close> is, as the subscript it becomes, strictly less
  than the number of child edges: the access is within bounds, yields the edge at that
  position, and the loop returns all the pairs.
\<close>

theorem child_edge_index_in_bounds:
  assumes "length (childEdges node) \<le> 2 ^ 31"
  shows "(\<forall>i < GetNumberOfChildEdges node.
            size_t_of_int (int_of_size_t i) < GetNumberOfChildEdges node \<and>
            GetChildEdgeAtIndex node (int_of_size_t i) = Some (childEdges node ! i)) \<and>
         edge_loop node message 0 [] = Inr (enumerated_pairs node message)"
proof -
  have "size_t_of_int (int_of_size_t i) < GetNumberOfChildEdges node \<and>
        GetChildEdgeAtIndex node (int_of_size_t i) = Some (childEdges node ! i)"
    if "i < GetNumberOfChildEdges node" for i
  proof -
    have "i < length (childEdges node)" using that by (simp add: GetNumberOfChildEdges_def)
    moreover from this have "i < 2 ^ 31" using assms by simp
    ultimately show ?thesis
      by (simp add: size_t_of_int_int_of_size_t GetChildEdgeAtIndex_small GetNumberOfChildEdges_def)
  qed
  then show ?thesis using edge_loop_enumerated_pairs [OF assms] by blast
qed

text \<open>The theorem at the root of the greeting graph.\<close>

theorem child_edge_index_in_bounds_witness:
  "length (childEdges (greeting_graph ! 0)) \<le> 2 ^ 31 \<and>
   size_t_of_int (int_of_size_t 1) < GetNumberOfChildEdges (greeting_graph ! 0) \<and>
   GetChildEdgeAtIndex (greeting_graph ! 0) (int_of_size_t 1) =
     Some \<lparr>edgeKeywords = [''hello''], childNode = 2\<rparr> \<and>
   edge_loop (greeting_graph ! 0) ''helo'' 0 [] =
     Inr [(\<lparr>edgeKeywords = [''hi''], childNode = 1\<rparr>, 3),
          (\<lparr>edgeKeywords = [''hello''], childNode = 2\<rparr>, 1)]"
proof -
  have h: "length (childEdges (greeting_graph ! 0)) \<le> 2 ^ 31"
    by (simp add: greeting_graph_def)
  have i: "1 < GetNumberOfChildEdges (greeting_graph ! 0)"
    by (simp add: GetNumberOfChildEdges_def greeting_graph_def)
  have e: "childEdges (greeting_graph ! 0) ! 1 = \<lparr>edgeKeywords = [''hello''], childNode = 2\<rparr>"
    by (simp add: greeting_graph_def)
  show ?thesis
    using h i child_edge_index_in_bounds [OF h, of "''helo''"]
    unfolding greeting_pairs e [symmetric] by blast
qed

lemma edge_loop_overflow:
  assumes "2 ^ 31 < length (childEdges n)" and "length (childEdges n) \<le> 2 ^ 63"
  shows "i \<le> 2 ^ 31 \<Longrightarrow> edge_loop n message i levDists = Inl Undefined"
proof (induction "2 ^ 31 - i" arbitrary: i levDists)
  case 0
  then have i: "i = 2 ^ 31" by simp
  have "size_t_of_int (int_of_size_t (2 ^ 31)) = 2 ^ 64 - 2 ^ 31"
    by (simp add: int_of_size_t_def to_int32_def size_t_of_int_def)
  then have "GetChildEdgeAtIndex n (int_of_size_t i) = None"
    using assms(2) unfolding i by (simp add: GetChildEdgeAtIndex_def)
  then show ?case using assms(1) i
    by (subst edge_loop.simps) (simp add: GetNumberOfChildEdges_def)
next
  case (Suc k)
  then have i: "i < 2 ^ 31" by simp
  then have il: "i < length (childEdges n)" using assms(1) by simp
  have "edge_loop n message (i + 1)
          (keyword_loop (childEdges n ! i) (GetKeywords (childEdges n ! i)) message levDists) =
        Inl Undefined"
    using Suc.hyps(1) [of "i + 1"] Suc.hyps(2) i by simp
  then show ?case using i il
    by (subst edge_loop.simps) (simp add: GetNumberOfChildEdges_def GetChildEdgeAtIndex_small)
qed

text \<open>
  C10 as stated fails: the accessor takes an \<open>int\<close>. At a node with \<open>2^31 + 1\<close> child edges
  the loop reaches \<open>i = 2^31\<close>, which arrives as a negative \<open>int\<close>, and the subscript it
  becomes is out of bounds.
\<close>

theorem child_edge_index_counterexample:
  "2 ^ 31 < GetNumberOfChildEdges crowded_node \<and>
   GetChildEdgeAtIndex crowded_node (int_of_size_t (2 ^ 31)) = None \<and>
   edge_loop crowded_node ''hi'' 0 [] = Inl Undefined"
proof -
  have a: "2 ^ 31 < GetNumberOfChildEdges crowded_node \<and>
      GetChildEdgeAtIndex crowded_node (int_of_size_t (2 ^ 31)) = None"
    by (simp add: GetNumberOfChildEdges_def crowded_node_def GetChildEdgeAtIndex_def
        int_of_size_t_def to_int32_def size_t_of_int_def)
  have "edge_loop crowded_node ''hi'' 0 [] = Inl Undefined"
    by (rule edge_loop_overflow) (simp_all add: crowded_node_def)
  then show ?thesis using a by blast
qed

end
